theory Spec2Isabelle
  imports Main "HOL-Library.Word"
begin

section \<open>JavaScript strings\<close>

text \<open>
  A JavaScript string is a sequence of UTF-16 code units. The parser in
  \<^verbatim>\<open>src/parseM3U.js\<close> only ever compares code units, so a string is modelled as a
  list of 16-bit words. \<open>js\<close> turns an ASCII literal into such a string.
\<close>

type_synonym jschar = "16 word"
type_synonym jsstring = "jschar list"

definition js :: "string \<Rightarrow> jsstring" where
  "js s = map of_char s"

text \<open>
  \<^verbatim>\<open>String.prototype.trim\<close> and the regular expression class \<^verbatim>\<open>\s\<close> use the same
  set: the WhiteSpace and LineTerminator code points of ECMAScript.
\<close>

definition isWhiteSpace :: "jschar \<Rightarrow> bool" where
  "isWhiteSpace c =
     (c = 0x09 \<or> c = 0x0A \<or> c = 0x0B \<or> c = 0x0C \<or> c = 0x0D \<or> c = 0x20 \<or> c = 0xA0 \<or>
      c = 0x1680 \<or> (0x2000 \<le> c \<and> c \<le> 0x200A) \<or> c = 0x2028 \<or> c = 0x2029 \<or>
      c = 0x202F \<or> c = 0x205F \<or> c = 0x3000 \<or> c = 0xFEFF)"

definition trim :: "jsstring \<Rightarrow> jsstring" where
  "trim s = rev (dropWhile isWhiteSpace (rev (dropWhile isWhiteSpace s)))"

text \<open>\<^verbatim>\<open>s.split('\n')\<close>: the result always has at least one element.\<close>

fun split_newline :: "jsstring \<Rightarrow> jsstring list" where
  "split_newline [] = [[]]"
| "split_newline (c # cs) =
     (if c = 0x0A then [] # split_newline cs
      else (case split_newline cs of [] \<Rightarrow> [[c]] | l # ls \<Rightarrow> (c # l) # ls))"

definition startsWith :: "jsstring \<Rightarrow> jsstring \<Rightarrow> bool" where
  "startsWith s p = (take (length p) s = p)"

text \<open>
  \<^verbatim>\<open>s.substring(a)\<close> and \<^verbatim>\<open>s.substring(a, b)\<close> on non-negative indices;
  \<^verbatim>\<open>substring\<close> swaps its arguments when the first is the larger one.
\<close>

definition substringFrom :: "jsstring \<Rightarrow> nat \<Rightarrow> jsstring" where
  "substringFrom s a = drop a s"

definition substring :: "jsstring \<Rightarrow> nat \<Rightarrow> nat \<Rightarrow> jsstring" where
  "substring s a b = take (max a b - min a b) (drop (min a b) s)"

text \<open>\<^verbatim>\<open>s.lastIndexOf(c)\<close> for a one-character needle: \<open>-1\<close> when absent.\<close>

fun lastIndexOf :: "jsstring \<Rightarrow> jschar \<Rightarrow> int" where
  "lastIndexOf [] c = -1"
| "lastIndexOf (x # xs) c =
     (let r = lastIndexOf xs c in
        if r \<noteq> -1 then r + 1 else if x = c then 0 else -1)"

text \<open>
  \<^verbatim>\<open>toLowerCase\<close> is only applied to the first group of the attribute regular
  expression, which holds ASCII characters only; on those it maps \<open>A\<close>..\<open>Z\<close> to
  \<open>a\<close>..\<open>z\<close> and leaves everything else alone.
\<close>

definition lowerChar :: "jschar \<Rightarrow> jschar" where
  "lowerChar c = (if 0x41 \<le> c \<and> c \<le> 0x5A then c + 0x20 else c)"

definition toLowerCase :: "jsstring \<Rightarrow> jsstring" where
  "toLowerCase s = map lowerChar s"

text \<open>The decimal digits of a number, as a template literal prints it.\<close>

fun decimal :: "nat \<Rightarrow> jsstring" where
  "decimal n =
     (if n < 10 then [of_nat (48 + n)]
      else decimal (n div 10) @ [of_nat (48 + n mod 10)])"

declare decimal.simps [simp del]

section \<open>Channels, console output and the parser state\<close>

record channel =
  name :: jsstring
  tvgId :: jsstring
  tvgName :: jsstring
  logo :: jsstring
  group :: jsstring
  url :: jsstring

text \<open>
  The object held in \<^verbatim>\<open>currentChannel\<close> carries \<^verbatim>\<open>rawExtInf\<close> as well; the field
  is deleted when the object is pushed to \<^verbatim>\<open>parsedChannels\<close>.
\<close>

record pending = channel +
  rawExtInf :: jsstring

text \<open>
  One constructor per \<^verbatim>\<open>console.log\<close> and \<^verbatim>\<open>console.warn\<close> call of the source, in
  source order, with the values interpolated into its message.
\<close>

datatype console_call =
    LogStarting
  | WarnNoHeader
  | WarnDiscardPrevious jsstring
  | WarnMalformed jsstring
  | WarnBareUrl jsstring
  | WarnDirectiveBeforeUrl jsstring jsstring
  | WarnMissingUrlAtEof jsstring
  | LogComplete nat
  | WarnZeroChannels

fun isWarn :: "console_call \<Rightarrow> bool" where
  "isWarn LogStarting = False"
| "isWarn (LogComplete n) = False"
| "isWarn c = True"

record pstate =
  parsedChannels :: "channel list"
  currentChannel :: "pending option"
  console :: "console_call list"

definition emit :: "pstate \<Rightarrow> console_call \<Rightarrow> pstate" where
  "emit st c = st\<lparr>console := console st @ [c]\<rparr>"

section \<open>The attribute regular expression\<close>

text \<open>
  \<^verbatim>\<open>/([a-zA-Z0-9_-]+)="([^"]*)"/g\<close>. A match at the start of \<open>s\<close> takes the longest run
  of key characters (a shorter run would be followed by a key character, not by \<open>=\<close>),
  then \<open>="\<close>, then the longest run of characters other than the quote (a shorter run
  would be followed by a non-quote), then the closing quote. The result is the two
  groups and what follows the match, which is where \<^verbatim>\<open>lastIndex\<close> points.
\<close>

definition isKeyChar :: "jschar \<Rightarrow> bool" where
  "isKeyChar c =
     ((0x61 \<le> c \<and> c \<le> 0x7A) \<or> (0x41 \<le> c \<and> c \<le> 0x5A) \<or> (0x30 \<le> c \<and> c \<le> 0x39) \<or>
      c = 0x5F \<or> c = 0x2D)"

definition matchAt :: "jsstring \<Rightarrow> (jsstring \<times> jsstring \<times> jsstring) option" where
  "matchAt s =
     (let key = takeWhile isKeyChar s in
        if key = [] then None
        else (case dropWhile isKeyChar s of
                e # q # r \<Rightarrow>
                  if e = 0x3D \<and> q = 0x22 then
                    (case dropWhile (\<lambda>c. c \<noteq> 0x22) r of
                       [] \<Rightarrow> None
                     | _ # rest \<Rightarrow> Some (key, takeWhile (\<lambda>c. c \<noteq> 0x22) r, rest))
                  else None
              | _ \<Rightarrow> None))"

text \<open>\<^verbatim>\<open>attributeRegex.exec\<close>: the leftmost match at or after \<^verbatim>\<open>lastIndex\<close>.\<close>

fun attributeRegex_exec :: "jsstring \<Rightarrow> (jsstring \<times> jsstring \<times> jsstring) option" where
  "attributeRegex_exec [] = None"
| "attributeRegex_exec (c # cs) =
     (case matchAt (c # cs) of
        Some m \<Rightarrow> Some m
      | None \<Rightarrow> attributeRegex_exec cs)"

text \<open>The \<^verbatim>\<open>switch (key)\<close> of the source, on the lower-cased key.\<close>

definition switchKey :: "pending \<Rightarrow> jsstring \<Rightarrow> jsstring \<Rightarrow> pending" where
  "switchKey ch key v =
     (if key = js ''tvg-id'' then ch\<lparr>tvgId := v\<rparr>
      else if key = js ''tvg-name'' then ch\<lparr>tvgName := v\<rparr>
      else if key = js ''tvg-logo'' then ch\<lparr>logo := v\<rparr>
      else if key = js ''group-title'' then ch\<lparr>group := v\<rparr>
      else ch)"

lemma matchAt_shorter: "matchAt s = Some (k, v, r) \<Longrightarrow> length r < length s"
proof -
  assume m: "matchAt s = Some (k, v, r)"
  obtain e q t x where d: "dropWhile isKeyChar s = e # q # t"
    and r: "dropWhile (\<lambda>c. c \<noteq> 0x22) t = x # r"
    using m by (auto simp: matchAt_def Let_def split: if_splits list.splits)
  have "length (x # r) \<le> length t"
    using length_dropWhile_le [of "\<lambda>c. c \<noteq> 0x22" t] r by simp
  moreover have "length (e # q # t) \<le> length s"
    using length_dropWhile_le [of isKeyChar s] d by simp
  ultimately show ?thesis by simp
qed

lemma attributeRegex_exec_shorter:
  "attributeRegex_exec s = Some (k, v, r) \<Longrightarrow> length r < length s"
proof (induction s)
  case Nil
  then show ?case by simp
next
  case (Cons c cs)
  show ?case
  proof (cases "matchAt (c # cs)")
    case None
    with Cons show ?thesis by simp
  next
    case (Some m)
    with Cons.prems have "matchAt (c # cs) = Some (k, v, r)" by simp
    then show ?thesis by (rule matchAt_shorter)
  qed
qed

text \<open>The \<^verbatim>\<open>while ((match = attributeRegex.exec(attributesPart)) !== null)\<close> loop.\<close>

function attrLoop :: "pending \<Rightarrow> jsstring \<Rightarrow> pending" where
  "attrLoop ch s =
     (case attributeRegex_exec s of
        None \<Rightarrow> ch
      | Some (key, v, rest) \<Rightarrow> attrLoop (switchKey ch (toLowerCase key) v) rest)"
  by pat_completeness auto
termination attrLoop
  by (relation "measure (\<lambda>(ch, s). length s)") (auto dest: attributeRegex_exec_shorter)

declare attrLoop.simps [simp del]

section \<open>Name normalisation\<close>

text \<open>
  \<^verbatim>\<open>/^Channel\s*\d+$/i\<close>. Without the \<^verbatim>\<open>u\<close> flag, case-insensitive matching
  compares canonicalised code units: a code unit below 128 is upper-cased, and a code
  unit from 128 on never canonicalises to one below 128, so it never equals a letter of
  the pattern; it is left as it is here. After the seven letters the pattern takes the
  longest run of white space, then the longest run of digits (at least one), and must
  then be at the end of the string.
\<close>

definition canonicalize :: "jschar \<Rightarrow> jschar" where
  "canonicalize c = (if 0x61 \<le> c \<and> c \<le> 0x7A then c - 0x20 else c)"

definition isDigit :: "jschar \<Rightarrow> bool" where
  "isDigit c = (0x30 \<le> c \<and> c \<le> 0x39)"

definition matchPlaceholder :: "jsstring \<Rightarrow> bool" where
  "matchPlaceholder s =
     (map canonicalize (take 7 s) = js ''CHANNEL'' \<and>
      (let r = dropWhile isWhiteSpace (drop 7 s) in r \<noteq> [] \<and> list_all isDigit r))"

text \<open>
  Lines 52 to 57 of the source; \<open>n\<close> is \<^verbatim>\<open>parsedChannels.length\<close>. A string is
  truthy when it is not empty.
\<close>

definition normalizeName :: "nat \<Rightarrow> pending \<Rightarrow> pending" where
  "normalizeName n ch =
     (let ch1 = (if (name ch = [] \<or> matchPlaceholder (name ch)) \<and> tvgName ch \<noteq> []
                 then ch\<lparr>name := tvgName ch\<rparr> else ch)
      in if name ch1 = [] then ch1\<lparr>name := js ''Unnamed Channel '' @ decimal (n + 1)\<rparr>
         else ch1)"

section \<open>The line loop\<close>

definition newChannel :: "jsstring \<Rightarrow> pending" where
  "newChannel line =
     \<lparr>name = [], tvgId = [], tvgName = [], logo = [], group = [], url = [],
      rawExtInf = line\<rparr>"

text \<open>
  Lines 23 to 57: the \<^verbatim>\<open>#EXTINF:\<close> line after the discard warning. \<open>None\<close> is the
  \<^verbatim>\<open>commaIndex === -1\<close> branch, which warns, clears \<^verbatim>\<open>currentChannel\<close> and
  continues with the next line.
\<close>

definition extInf :: "nat \<Rightarrow> jsstring \<Rightarrow> pending option" where
  "extInf n line =
     (let infoLine = trim (substringFrom line 8);
          commaIndex = lastIndexOf infoLine 0x2C
      in if commaIndex = -1 then None
         else
           (let ch = (newChannel line)
                  \<lparr>name := trim (substringFrom infoLine (nat (commaIndex + 1)))\<rparr>;
                attributesPart = trim (substring infoLine 0 (nat commaIndex))
            in Some (normalizeName n (attrLoop ch attributesPart))))"

text \<open>The warning of lines 19 to 21, when a channel without a URL is still pending.\<close>

definition discardPrevious :: "pstate \<Rightarrow> pstate" where
  "discardPrevious st =
     (case currentChannel st of
        None \<Rightarrow> st
      | Some c \<Rightarrow> if url c = [] then emit st (WarnDiscardPrevious (name c)) else st)"

text \<open>One iteration of the \<^verbatim>\<open>for\<close> loop, on the line \<^verbatim>\<open>lines[i]\<close>.\<close>

definition processLine :: "pstate \<Rightarrow> jsstring \<Rightarrow> pstate" where
  "processLine st raw =
     (let line = trim raw in
        if startsWith line (js ''#EXTINF:'') then
          (let st1 = discardPrevious st in
             case extInf (length (parsedChannels st1)) line of
               None \<Rightarrow> (emit st1 (WarnMalformed line))\<lparr>currentChannel := None\<rparr>
             | Some ch \<Rightarrow> st1\<lparr>currentChannel := Some ch\<rparr>)
        else if currentChannel st \<noteq> None \<and> line \<noteq> [] \<and> \<not> startsWith line (js ''#'') then
          (case currentChannel st of
             None \<Rightarrow> st
           | Some c \<Rightarrow>
               st\<lparr>parsedChannels := parsedChannels st @ [channel.truncate (c\<lparr>url := line\<rparr>)],
                  currentChannel := None\<rparr>)
        else if line \<noteq> [] \<and> \<not> startsWith line (js ''#'') \<and> currentChannel st = None then
          (emit st (WarnBareUrl line))
            \<lparr>parsedChannels := parsedChannels st @
               [\<lparr>name = js ''Channel '' @ decimal (length (parsedChannels st) + 1),
                 tvgId = [], tvgName = [], logo = [], group = [], url = line\<rparr>]\<rparr>
        else if startsWith line (js ''#'') \<and> line \<noteq> js ''#EXTM3U'' \<and>
                (case currentChannel st of None \<Rightarrow> False | Some c \<Rightarrow> url c = []) then
          (case currentChannel st of
             None \<Rightarrow> st
           | Some c \<Rightarrow>
               (emit st (WarnDirectiveBeforeUrl line (name c)))\<lparr>currentChannel := None\<rparr>)
        else st)"

section \<open>parseM3U\<close>

text \<open>
  The condition of line 13: \<^verbatim>\<open>!lines[0] || !lines[0].trim().startsWith('#EXTM3U')\<close>.
  An index out of range reads \<^verbatim>\<open>undefined\<close>, which is falsy.
\<close>

definition headerMissing :: "jsstring list \<Rightarrow> bool" where
  "headerMissing lines =
     (case lines of
        [] \<Rightarrow> True
      | l0 # _ \<Rightarrow> l0 = [] \<or> \<not> startsWith (trim l0) (js ''#EXTM3U''))"

definition initial :: pstate where
  "initial = \<lparr>parsedChannels = [], currentChannel = None, console = [LogStarting]\<rparr>"

text \<open>Lines 71 to 77, after the loop.\<close>

definition finish :: "nat \<Rightarrow> pstate \<Rightarrow> pstate" where
  "finish nlines st =
     (let st1 = (case currentChannel st of
                   None \<Rightarrow> st
                 | Some c \<Rightarrow>
                     if url c = [] then emit st (WarnMissingUrlAtEof (rawExtInf c)) else st);
          st2 = emit st1 (LogComplete (length (parsedChannels st1)))
      in if length (parsedChannels st2) = 0 \<and> nlines > 1 then emit st2 WarnZeroChannels
         else st2)"

definition parseM3U_run :: "jsstring \<Rightarrow> pstate" where
  "parseM3U_run m3uText =
     (let lines = split_newline m3uText;
          st0 = (if headerMissing lines then emit initial WarnNoHeader else initial)
      in finish (length lines) (foldl processLine st0 lines))"

text \<open>The value \<^verbatim>\<open>parseM3U\<close> returns, and the warnings it prints on the way.\<close>

definition parseM3U :: "jsstring \<Rightarrow> channel list" where
  "parseM3U m3uText = parsedChannels (parseM3U_run m3uText)"

definition diagnostics :: "jsstring \<Rightarrow> console_call list" where
  "diagnostics m3uText = filter isWarn (console (parseM3U_run m3uText))"

section \<open>Vocabulary of the properties\<close>

text \<open>
  A content line, as both URL branches of the loop test it: the trimmed line is not
  empty and does not start with \<open>#\<close>.
\<close>

definition isContent :: "jsstring \<Rightarrow> bool" where
  "isContent line = (line \<noteq> [] \<and> \<not> startsWith line (js ''#''))"

text \<open>Every emitted channel has a name and a URL, and so has a pending one a name.\<close>

definition named :: "pstate \<Rightarrow> bool" where
  "named st = (list_all (\<lambda>ch. name ch \<noteq> [] \<and> url ch \<noteq> []) (parsedChannels st) \<and>
     (case currentChannel st of None \<Rightarrow> True | Some c \<Rightarrow> name c \<noteq> []))"

text \<open>
  The first non-blank line of a document, in the words of the specification: the first
  line that is not empty after trimming.
\<close>

definition firstNonBlankLine :: "jsstring \<Rightarrow> jsstring option" where
  "firstNonBlankLine m3uText = find (\<lambda>l. l \<noteq> []) (map trim (split_newline m3uText))"

text \<open>
  The placeholder pattern and the name fallback chain in the words of the
  specification: \<open>Channel\<close>, case-insensitive, followed by white space and a number.
  White space is read as at least one white space character.
\<close>

definition placeholderSpec :: "jsstring \<Rightarrow> bool" where
  "placeholderSpec s =
     (map canonicalize (take 7 s) = js ''CHANNEL'' \<and>
      (let r = drop 7 s; d = dropWhile isWhiteSpace r
       in d \<noteq> r \<and> d \<noteq> [] \<and> list_all isDigit d))"

definition nameSpec :: "nat \<Rightarrow> jsstring \<Rightarrow> jsstring \<Rightarrow> jsstring" where
  "nameSpec n nm tvg =
     (let nm1 = (if (nm = [] \<or> placeholderSpec nm) \<and> tvg \<noteq> [] then tvg else nm)
      in if nm1 = [] then js ''Unnamed Channel '' @ decimal (n + 1) else nm1)"

text \<open>The state after the one line \<open>#EXTINF:-1,Channel 5\<close>: a channel is pending.\<close>

definition pendingSample :: pstate where
  "pendingSample = processLine initial (js ''#EXTINF:-1,Channel 5'')"

text \<open>
  The matches the loop of lines 34 to 51 sees, in order: the two groups of every
  successive \<^verbatim>\<open>exec\<close> result.
\<close>

function matchAll :: "jsstring \<Rightarrow> (jsstring \<times> jsstring) list" where
  "matchAll s =
     (case attributeRegex_exec s of
        None \<Rightarrow> []
      | Some (key, v, rest) \<Rightarrow> (key, v) # matchAll rest)"
  by pat_completeness auto
termination matchAll
  by (relation "measure length") (auto dest: attributeRegex_exec_shorter)

declare matchAll.simps [simp del]

text \<open>The keys with a \<^verbatim>\<open>case\<close> in the \<^verbatim>\<open>switch\<close>.\<close>

definition recognizedKeys :: "jsstring list" where
  "recognizedKeys = [js ''tvg-id'', js ''tvg-name'', js ''tvg-logo'', js ''group-title'']"

text \<open>
  The values of the matches whose lower-cased key is \<open>key\<close>, in order of occurrence, and
  the last element of a list, or a default when there is none.
\<close>

definition valuesOf :: "jsstring \<Rightarrow> jsstring \<Rightarrow> jsstring list" where
  "valuesOf key s = map snd (filter (\<lambda>(k, v). toLowerCase k = key) (matchAll s))"

definition lastOr :: "'a \<Rightarrow> 'a list \<Rightarrow> 'a" where
  "lastOr d vs = (case rev vs of [] \<Rightarrow> d | v # _ \<Rightarrow> v)"


text \<open>The playlist of the repository's own test.\<close>

definition sampleText :: jsstring where
  "sampleText =
     js ''#EXTM3U'' @ [0x0A] @
     js ''#EXTINF:-1 tvg-id=\"abc\" tvg-name=\"ABC\" tvg-logo=\"logo.png\" group-title=\"News\",ABC News'' @ [0x0A] @
     js ''http://example.com/stream1.m3u8'' @ [0x0A] @
     js ''#EXTINF:-1,No attributes'' @ [0x0A] @
     js ''http://example.com/stream2.ts''"

section \<open>Basic facts\<close>


lemma startsWith_iff: "startsWith s p \<longleftrightarrow> (\<exists>r. s = p @ r)"
proof
  assume "startsWith s p"
  then have "s = p @ drop (length p) s"
    by (metis append_take_drop_id startsWith_def)
  then show "\<exists>r. s = p @ r" ..
next
  assume "\<exists>r. s = p @ r"
  then show "startsWith s p" by (auto simp: startsWith_def)
qed

lemma startsWith_extinf_hash:
  assumes "startsWith l (js ''#EXTINF:'')" shows "startsWith l (js ''#'')"
proof -
  from assms obtain r where "l = js ''#EXTINF:'' @ r" by (auto simp: startsWith_iff)
  then have "l = js ''#'' @ (js ''EXTINF:'' @ r)" by (simp add: js_def)
  then show ?thesis unfolding startsWith_iff by blast
qed

lemma discardPrevious_fields:
  "parsedChannels (discardPrevious st) = parsedChannels st"
  "currentChannel (discardPrevious st) = currentChannel st"
  by (simp_all add: discardPrevious_def emit_def split: option.splits)

lemma processLine_extinf:
  assumes "startsWith (trim raw) (js ''#EXTINF:'')"
  shows "processLine st raw =
    (case extInf (length (parsedChannels st)) (trim raw) of
       None \<Rightarrow> (emit (discardPrevious st) (WarnMalformed (trim raw)))\<lparr>currentChannel := None\<rparr>
     | Some ch \<Rightarrow> (discardPrevious st)\<lparr>currentChannel := Some ch\<rparr>)"
  using assms by (simp add: processLine_def Let_def discardPrevious_fields)

lemma processLine_content_pending:
  assumes "trim raw \<noteq> []" "\<not> startsWith (trim raw) (js ''#'')" "currentChannel st = Some c"
  shows "processLine st raw =
    st\<lparr>parsedChannels := parsedChannels st @ [channel.truncate (c\<lparr>url := trim raw\<rparr>)],
       currentChannel := None\<rparr>"
proof -
  have "\<not> startsWith (trim raw) (js ''#EXTINF:'')"
    using assms(2) startsWith_extinf_hash by blast
  then show ?thesis using assms by (simp add: processLine_def Let_def)
qed

lemma processLine_content_idle:
  assumes "trim raw \<noteq> []" "\<not> startsWith (trim raw) (js ''#'')" "currentChannel st = None"
  shows "processLine st raw =
    (emit st (WarnBareUrl (trim raw)))
      \<lparr>parsedChannels := parsedChannels st @
         [\<lparr>name = js ''Channel '' @ decimal (length (parsedChannels st) + 1),
           tvgId = [], tvgName = [], logo = [], group = [], url = trim raw\<rparr>]\<rparr>"
proof -
  have "\<not> startsWith (trim raw) (js ''#EXTINF:'')"
    using assms(2) startsWith_extinf_hash by blast
  then show ?thesis using assms by (simp add: processLine_def Let_def)
qed

lemma processLine_directive:
  assumes "startsWith (trim raw) (js ''#'')" "\<not> startsWith (trim raw) (js ''#EXTINF:'')"
    "trim raw \<noteq> js ''#EXTM3U''" "currentChannel st = Some c" "url c = []"
  shows "processLine st raw =
    (emit st (WarnDirectiveBeforeUrl (trim raw) (name c)))\<lparr>currentChannel := None\<rparr>"
  unfolding processLine_def Let_def using assms by simp

lemma processLine_blank:
  assumes "trim raw = []"
  shows "processLine st raw = st"
proof -
  have "\<not> startsWith [] (js ''#EXTINF:'')" "\<not> startsWith [] (js ''#'')"
    by (simp_all add: startsWith_def js_def)
  then show ?thesis using assms by (simp add: processLine_def Let_def)
qed

lemma processLine_header:
  assumes "trim raw = js ''#EXTM3U''"
  shows "processLine st raw = st"
proof -
  have "\<not> startsWith (js ''#EXTM3U'') (js ''#EXTINF:'')" "startsWith (js ''#EXTM3U'') (js ''#'')"
    by (simp_all add: startsWith_def js_def)
  then show ?thesis using assms by (simp add: processLine_def Let_def)
qed

lemma normalizeName_name: "name (normalizeName n ch) \<noteq> []"
  by (simp add: normalizeName_def Let_def js_def)

lemma extInf_name: "extInf n line = Some ch \<Longrightarrow> name ch \<noteq> []"
  by (auto simp: extInf_def Let_def normalizeName_name split: if_splits)


lemma processLine_content:
  assumes "isContent (trim raw)"
  shows "parsedChannels (processLine st raw) =
           parsedChannels st @
             [case currentChannel st of
                None \<Rightarrow> \<lparr>name = js ''Channel '' @ decimal (length (parsedChannels st) + 1),
                         tvgId = [], tvgName = [], logo = [], group = [], url = trim raw\<rparr>
              | Some c \<Rightarrow> channel.truncate (c\<lparr>url := trim raw\<rparr>)]"
    and "currentChannel (processLine st raw) = None"
  using assms
  by (cases "currentChannel st";
      simp add: isContent_def processLine_content_idle processLine_content_pending emit_def)+

lemma processLine_not_content:
  assumes "\<not> isContent (trim raw)"
  shows "parsedChannels (processLine st raw) = parsedChannels st"
    and "currentChannel (processLine st raw) = None \<or>
         currentChannel (processLine st raw) = currentChannel st \<or>
         currentChannel (processLine st raw) =
           extInf (length (parsedChannels st)) (trim raw)"
  using assms unfolding isContent_def processLine_def Let_def
  by (auto simp: discardPrevious_fields emit_def split: option.splits)

lemma named_processLine: "named st \<Longrightarrow> named (processLine st raw)"
proof (cases "isContent (trim raw)")
  case True
  assume "named st"
  then show ?thesis
    using True unfolding named_def
    by (auto simp: processLine_content isContent_def channel.truncate_def js_def
        split: option.splits)
next
  case False
  assume "named st"
  then show ?thesis
    using processLine_not_content[OF False, of st] extInf_name
    unfolding named_def by (auto split: option.splits)
qed

lemma named_foldl: "named st \<Longrightarrow> named (foldl processLine st ls)"
  by (induction ls arbitrary: st) (simp_all add: named_processLine)

lemma finish_fields:
  "parsedChannels (finish n st) = parsedChannels st"
  "currentChannel (finish n st) = currentChannel st"
  by (simp_all add: finish_def emit_def Let_def split: option.splits)

lemma parseM3U_foldl:
  "parseM3U m3uText = parsedChannels (foldl processLine
      (if headerMissing (split_newline m3uText) then emit initial WarnNoHeader else initial)
      (split_newline m3uText))"
  by (simp add: parseM3U_def parseM3U_run_def Let_def finish_fields)

section \<open>Invariants of the output\<close>

text \<open>
  C1. For every input string, every record in the sequence that \<open>parseM3U\<close> returns has a
  non-empty name and a non-empty url.
\<close>

theorem C1_records_named: "\<forall>ch \<in> set (parseM3U m3uText). name ch \<noteq> [] \<and> url ch \<noteq> []"
proof -
  have "named (if headerMissing (split_newline m3uText) then emit initial WarnNoHeader else initial)"
    by (simp add: named_def initial_def emit_def)
  then have "named (foldl processLine
      (if headerMissing (split_newline m3uText) then emit initial WarnNoHeader else initial)
      (split_newline m3uText))"
    by (rule named_foldl)
  then show ?thesis
    unfolding parseM3U_foldl named_def by (simp add: list_all_iff)
qed

lemma sampleText_parsed:
  "parseM3U sampleText =
     [\<lparr>name = js ''ABC News'', tvgId = js ''abc'', tvgName = js ''ABC'',
       logo = js ''logo.png'', group = js ''News'',
       url = js ''http://example.com/stream1.m3u8''\<rparr>,
      \<lparr>name = js ''No attributes'', tvgId = [], tvgName = [], logo = [], group = [],
       url = js ''http://example.com/stream2.ts''\<rparr>]"
  by code_simp

theorem C1_records_named_witness:
  "name (parseM3U sampleText ! 0) \<noteq> [] \<and> url (parseM3U sampleText ! 0) \<noteq> [] \<and>
   name (parseM3U sampleText ! 1) \<noteq> [] \<and> url (parseM3U sampleText ! 1) \<noteq> [] \<and>
   length (parseM3U sampleText) = 2"
  using C1_records_named [of sampleText] by (simp add: sampleText_parsed)

lemma urls_foldl:
  "map url (parsedChannels (foldl processLine st ls)) =
     map url (parsedChannels st) @ filter isContent (map trim ls)"
proof (induction ls arbitrary: st)
  case Nil
  then show ?case by simp
next
  case (Cons l ls)
  show ?case
  proof (cases "isContent (trim l)")
    case True
    then show ?thesis
      by (simp add: Cons.IH processLine_content channel.truncate_def split: option.splits)
  next
    case False
    then show ?thesis by (simp add: Cons.IH processLine_not_content)
  qed
qed

text \<open>
  C2. For every input, the urls of the returned records, in order, are the content lines
  of the text (trimmed, not empty, not starting with \<open>#\<close>) in the order they occur: a
  record is appended when its URL line is read, wherever its metadata directive stood.
\<close>

theorem C2_output_order: "map url (parseM3U m3uText) = filter isContent (map trim (split_newline m3uText))"
  unfolding parseM3U_foldl by (simp add: urls_foldl initial_def emit_def)


section \<open>The header check\<close>

text \<open>
  C3, as stated: parsing the empty string returns no record and emits no diagnostic.
  The text splits into the single line \<open>""\<close>, which is falsy, so line 13 warns.
\<close>

theorem C3_empty_input_counterexample: "\<not> (parseM3U [] = [] \<and> diagnostics [] = [])"
  by code_simp

text \<open>
  C3, amended. Parsing the empty string returns the empty sequence and emits exactly one
  diagnostic, the missing-header warning.
\<close>

theorem C3_empty_input: "parseM3U [] = [] \<and> diagnostics [] = [WarnNoHeader]"
  by code_simp

text \<open>
  C4, as stated: the missing-header warning is emitted if and only if the first
  non-blank line is not the marker. In a document whose header follows one empty line
  the first non-blank line is the marker, and the warning is emitted all the same.
\<close>

theorem C4_leading_blank_counterexample:
  "WarnNoHeader \<in> set (diagnostics ([0x0A] @ js ''#EXTM3U'')) \<and>
   firstNonBlankLine ([0x0A] @ js ''#EXTM3U'') = Some (js ''#EXTM3U'')"
  by code_simp

lemma split_newline_first:
  "\<exists>ls. split_newline s = takeWhile (\<lambda>c. c \<noteq> 0x0A) s # ls"
  by (induction s) (auto split: list.splits)

lemma split_newline_append:
  "0x0A \<notin> set a \<Longrightarrow> split_newline (a @ 0x0A # t) = a # split_newline t"
  by (induction a) auto

lemma trim_Nil: "trim [] = []"
  by (simp add: trim_def)

lemma headerMissing_iff:
  "headerMissing (split_newline s) =
     (\<not> startsWith (trim (takeWhile (\<lambda>c. c \<noteq> 0x0A) s)) (js ''#EXTM3U''))"
proof -
  obtain ls where "split_newline s = takeWhile (\<lambda>c. c \<noteq> 0x0A) s # ls"
    using split_newline_first by blast
  moreover have "\<not> startsWith [] (js ''#EXTM3U'')"
    by (simp add: startsWith_def js_def)
  ultimately show ?thesis
    by (auto simp: headerMissing_def trim_Nil)
qed

lemma processLine_no_header_warning:
  "WarnNoHeader \<in> set (console (processLine st raw)) \<longleftrightarrow> WarnNoHeader \<in> set (console st)"
  unfolding processLine_def Let_def
  by (auto simp: emit_def discardPrevious_def split: option.splits)

lemma foldl_no_header_warning:
  "WarnNoHeader \<in> set (console (foldl processLine st ls)) \<longleftrightarrow> WarnNoHeader \<in> set (console st)"
  by (induction ls arbitrary: st) (simp_all add: processLine_no_header_warning)

lemma finish_no_header_warning:
  "WarnNoHeader \<in> set (console (finish n st)) \<longleftrightarrow> WarnNoHeader \<in> set (console st)"
  by (auto simp: finish_def Let_def emit_def split: option.splits)

lemma header_warning_iff:
  "WarnNoHeader \<in> set (diagnostics s) \<longleftrightarrow> headerMissing (split_newline s)"
  by (simp add: diagnostics_def parseM3U_run_def Let_def finish_no_header_warning
      foldl_no_header_warning emit_def initial_def)

lemma processLine_console:
  "(processLine (st\<lparr>console := k\<rparr>) raw)\<lparr>console := []\<rparr> = (processLine st raw)\<lparr>console := []\<rparr>"
  unfolding processLine_def Let_def
  by (auto simp: emit_def discardPrevious_def split: option.splits)

lemma foldl_console:
  "(foldl processLine (st\<lparr>console := k\<rparr>) ls)\<lparr>console := []\<rparr> =
   (foldl processLine st ls)\<lparr>console := []\<rparr>"
proof (induction ls arbitrary: st k)
  case Nil
  then show ?case by simp
next
  case (Cons l ls)
  have "(foldl processLine (processLine (st\<lparr>console := k\<rparr>) l) ls)\<lparr>console := []\<rparr> =
        (foldl processLine ((processLine (st\<lparr>console := k\<rparr>) l)\<lparr>console := []\<rparr>) ls)\<lparr>console := []\<rparr>"
    by (simp add: Cons.IH)
  also have "\<dots> = (foldl processLine ((processLine st l)\<lparr>console := []\<rparr>) ls)\<lparr>console := []\<rparr>"
    by (simp only: processLine_console)
  also have "\<dots> = (foldl processLine (processLine st l) ls)\<lparr>console := []\<rparr>"
    by (simp add: Cons.IH)
  finally show ?case by simp
qed

lemma channels_console:
  "parsedChannels (foldl processLine (emit st c) ls) = parsedChannels (foldl processLine st ls)"
proof -
  have "parsedChannels (foldl processLine (emit st c) ls) =
        parsedChannels ((foldl processLine (st\<lparr>console := console st @ [c]\<rparr>) ls)\<lparr>console := []\<rparr>)"
    by (simp add: emit_def)
  then show ?thesis by (simp only: foldl_console) simp
qed

lemma parseM3U_initial:
  "parseM3U s = parsedChannels (foldl processLine initial (split_newline s))"
  by (simp add: parseM3U_foldl channels_console)

lemma parseM3U_header:
  "parseM3U (js ''#EXTM3U'' @ 0x0A # s) = parseM3U s"
proof -
  have "split_newline (js ''#EXTM3U'' @ 0x0A # s) = js ''#EXTM3U'' # split_newline s"
    by (rule split_newline_append) (simp add: js_def)
  moreover have "trim (js ''#EXTM3U'') = js ''#EXTM3U''"
    by code_simp
  ultimately show ?thesis
    by (simp add: parseM3U_initial processLine_header)
qed

text \<open>
  C4, amended. The missing-header warning is emitted if and only if the first line of
  the text (up to the first line feed), trimmed, does not start with \<open>#EXTM3U\<close>.
  Parsing proceeds regardless: a document parses to the same records with or without a
  header line in front of it.
\<close>

theorem C4_header_check:
  "(WarnNoHeader \<in> set (diagnostics m3uText)) =
     (\<not> startsWith (trim (takeWhile (\<lambda>c. c \<noteq> 0x0A) m3uText)) (js ''#EXTM3U'')) \<and>
   parseM3U (js ''#EXTM3U'' @ 0x0A # m3uText) = parseM3U m3uText"
  by (simp add: header_warning_iff headerMissing_iff parseM3U_header)

section \<open>A URL line without a pending channel\<close>

text \<open>
  C8. When a content line is read while no channel is pending, the warning for a bare URL
  is printed and the record \<open>{name: "Channel n", url: line}\<close> with the four other
  fields empty is appended, where \<open>n\<close> is the number of records already emitted plus
  one; nothing else changes, so no channel is pending afterwards either.
\<close>

theorem C8_bare_url:
  assumes "currentChannel st = None" and "trim raw \<noteq> []"
    and "\<not> startsWith (trim raw) (js ''#'')"
  shows "processLine st raw =
    st\<lparr>parsedChannels := parsedChannels st @
          [\<lparr>name = js ''Channel '' @ decimal (length (parsedChannels st) + 1),
            tvgId = [], tvgName = [], logo = [], group = [], url = trim raw\<rparr>],
       console := console st @ [WarnBareUrl (trim raw)]\<rparr>"
  using assms by (simp add: processLine_content_idle emit_def)

theorem C8_bare_url_witness:
  "processLine (emit initial WarnNoHeader) (js ''http://bare.url/stream'') =
     \<lparr>parsedChannels =
        [\<lparr>name = js ''Channel 1'', tvgId = [], tvgName = [], logo = [], group = [],
          url = js ''http://bare.url/stream''\<rparr>],
      currentChannel = None,
      console = [LogStarting, WarnNoHeader, WarnBareUrl (js ''http://bare.url/stream'')]\<rparr>"
proof -
  have t: "trim (js ''http://bare.url/stream'') = js ''http://bare.url/stream''"
    by code_simp
  have c: "currentChannel (emit initial WarnNoHeader) = None"
    by (simp add: emit_def initial_def)
  have n: "js ''http://bare.url/stream'' \<noteq> []"
    by (simp add: js_def)
  have h: "\<not> startsWith (js ''http://bare.url/stream'') (js ''#'')"
    by code_simp
  have d: "decimal (Suc 0) = js ''1''"
    by code_simp
  show ?thesis
    using C8_bare_url [of "emit initial WarnNoHeader" "js ''http://bare.url/stream''",
        unfolded t, OF c n h]
    by (simp add: emit_def initial_def d js_def)
qed

lemma finish_pending:
  assumes "currentChannel st = Some c" and "url c = []"
  shows "console (finish n st) =
           console st @ WarnMissingUrlAtEof (rawExtInf c) #
             LogComplete (length (parsedChannels st)) #
             (if parsedChannels st = [] \<and> 1 < n then [WarnZeroChannels] else [])"
  using assms by (simp add: finish_def Let_def emit_def)

lemma processLine_extinf_pending:
  assumes "currentChannel st = Some c" and "url c = []"
    and "startsWith (trim raw) (js ''#EXTINF:'')"
  shows "parsedChannels (processLine st raw) = parsedChannels st"
    and "currentChannel (processLine st raw) = extInf (length (parsedChannels st)) (trim raw)"
    and "console (processLine st raw) =
           console st @ WarnDiscardPrevious (name c) #
             (case extInf (length (parsedChannels st)) (trim raw) of
                None \<Rightarrow> [WarnMalformed (trim raw)] | Some ch \<Rightarrow> [])"
  using assms
  by (simp_all add: processLine_extinf discardPrevious_def emit_def split: option.splits)

section \<open>Discarding a pending channel\<close>

text \<open>
  C7. Let a channel without a URL be pending. A new metadata directive discards it with a
  warning (and the pending slot then holds what the new line gives); any other line
  starting with \<open>#\<close>, the exact header \<open>#EXTM3U\<close> apart, discards it with a warning; and
  the end of input warns about it. A blank line or the header leaves the state as it is,
  and a content line completes the channel. These cases cover every line, so there are
  exactly three ways to discard, and none of them appends to the output.
\<close>

theorem C7_pending_discard:
  assumes "currentChannel st = Some c" and "url c = []"
  shows
    "(startsWith (trim raw) (js ''#EXTINF:'') \<longrightarrow>
        parsedChannels (processLine st raw) = parsedChannels st \<and>
        currentChannel (processLine st raw) = extInf (length (parsedChannels st)) (trim raw) \<and>
        console (processLine st raw) =
          console st @ WarnDiscardPrevious (name c) #
            (case extInf (length (parsedChannels st)) (trim raw) of
               None \<Rightarrow> [WarnMalformed (trim raw)] | Some ch \<Rightarrow> [])) \<and>
     (startsWith (trim raw) (js ''#'') \<and> \<not> startsWith (trim raw) (js ''#EXTINF:'') \<and>
      trim raw \<noteq> js ''#EXTM3U'' \<longrightarrow>
        processLine st raw =
          st\<lparr>currentChannel := None,
             console := console st @ [WarnDirectiveBeforeUrl (trim raw) (name c)]\<rparr>) \<and>
     (trim raw = [] \<or> trim raw = js ''#EXTM3U'' \<longrightarrow> processLine st raw = st) \<and>
     (isContent (trim raw) \<longrightarrow>
        processLine st raw =
          st\<lparr>parsedChannels := parsedChannels st @ [channel.truncate (c\<lparr>url := trim raw\<rparr>)],
             currentChannel := None\<rparr>) \<and>
     parsedChannels (finish n st) = parsedChannels st \<and>
     console (finish n st) =
       console st @ WarnMissingUrlAtEof (rawExtInf c) #
         LogComplete (length (parsedChannels st)) #
         (if parsedChannels st = [] \<and> 1 < n then [WarnZeroChannels] else []) \<and>
     (startsWith (trim raw) (js ''#EXTINF:'') \<or>
      (startsWith (trim raw) (js ''#'') \<and> \<not> startsWith (trim raw) (js ''#EXTINF:'') \<and>
       trim raw \<noteq> js ''#EXTM3U'') \<or>
      trim raw = [] \<or> trim raw = js ''#EXTM3U'' \<or> isContent (trim raw))"
proof (intro conjI impI)
  assume "startsWith (trim raw) (js ''#EXTINF:'')"
  with assms show "parsedChannels (processLine st raw) = parsedChannels st"
    and "currentChannel (processLine st raw) = extInf (length (parsedChannels st)) (trim raw)"
    and "console (processLine st raw) =
          console st @ WarnDiscardPrevious (name c) #
            (case extInf (length (parsedChannels st)) (trim raw) of
               None \<Rightarrow> [WarnMalformed (trim raw)] | Some ch \<Rightarrow> [])"
    by (rule processLine_extinf_pending)+
next
  assume "startsWith (trim raw) (js ''#'') \<and> \<not> startsWith (trim raw) (js ''#EXTINF:'') \<and>
      trim raw \<noteq> js ''#EXTM3U''"
  with assms show "processLine st raw =
          st\<lparr>currentChannel := None,
             console := console st @ [WarnDirectiveBeforeUrl (trim raw) (name c)]\<rparr>"
    by (simp add: processLine_directive emit_def)
next
  assume "trim raw = [] \<or> trim raw = js ''#EXTM3U''"
  then show "processLine st raw = st"
    using processLine_blank processLine_header by blast
next
  assume "isContent (trim raw)"
  with assms show "processLine st raw =
          st\<lparr>parsedChannels := parsedChannels st @ [channel.truncate (c\<lparr>url := trim raw\<rparr>)],
             currentChannel := None\<rparr>"
    by (simp add: isContent_def processLine_content_pending)
next
  show "parsedChannels (finish n st) = parsedChannels st"
    by (rule finish_fields)
next
  show "console (finish n st) =
       console st @ WarnMissingUrlAtEof (rawExtInf c) #
         LogComplete (length (parsedChannels st)) #
         (if parsedChannels st = [] \<and> 1 < n then [WarnZeroChannels] else [])"
    using assms by (rule finish_pending)
next
  show "startsWith (trim raw) (js ''#EXTINF:'') \<or>
      (startsWith (trim raw) (js ''#'') \<and> \<not> startsWith (trim raw) (js ''#EXTINF:'') \<and>
       trim raw \<noteq> js ''#EXTM3U'') \<or>
      trim raw = [] \<or> trim raw = js ''#EXTM3U'' \<or> isContent (trim raw)"
    by (auto simp: isContent_def)
qed

lemma pendingSample_eq:
  "pendingSample =
     \<lparr>parsedChannels = [],
      currentChannel = Some \<lparr>name = js ''Channel 5'', tvgId = [], tvgName = [], logo = [],
        group = [], url = [], rawExtInf = js ''#EXTINF:-1,Channel 5''\<rparr>,
      console = [LogStarting]\<rparr>"
  by code_simp


theorem C7_pending_discard_witness:
  "processLine pendingSample (js ''#EXTVLCOPT:x'') =
     \<lparr>parsedChannels = [], currentChannel = None,
      console = [LogStarting, WarnDirectiveBeforeUrl (js ''#EXTVLCOPT:x'') (js ''Channel 5'')]\<rparr> \<and>
   parsedChannels (finish 1 pendingSample) = [] \<and>
   console (finish 1 pendingSample) =
     [LogStarting, WarnMissingUrlAtEof (js ''#EXTINF:-1,Channel 5''), LogComplete 0]"
proof -
  let ?c = "\<lparr>name = js ''Channel 5'', tvgId = [], tvgName = [], logo = [],
        group = [], url = [], rawExtInf = js ''#EXTINF:-1,Channel 5''\<rparr>"
  have cur: "currentChannel pendingSample = Some ?c"
    by (simp add: pendingSample_eq)
  have u: "url ?c = []"
    by simp
  have t: "trim (js ''#EXTVLCOPT:x'') = js ''#EXTVLCOPT:x''"
    by code_simp
  have h: "startsWith (js ''#EXTVLCOPT:x'') (js ''#'')"
    "\<not> startsWith (js ''#EXTVLCOPT:x'') (js ''#EXTINF:'')"
    "js ''#EXTVLCOPT:x'' \<noteq> js ''#EXTM3U''"
    by code_simp+
  show ?thesis
    using C7_pending_discard [OF cur u, of "js ''#EXTVLCOPT:x''" 1, unfolded t] h
    by (simp add: pendingSample_eq)
qed

section \<open>Name normalisation of a metadata directive\<close>

text \<open>
  C6, as stated: the placeholder pattern is \<open>Channel\<close> followed by white space and a
  number. The name \<open>Channel5\<close> has no white space, so by the claim the explicit name
  wins; the code replaces it by \<open>tvg-name\<close>.
\<close>

theorem C6_placeholder_counterexample:
  "map name (parseM3U (js ''#EXTINF:-1 tvg-name=\"Real\",Channel5'' @ [0x0A] @ js ''http://x'')) =
     [js ''Real''] \<and>
   nameSpec 0 (js ''Channel5'') (js ''Real'') = js ''Channel5''"
  by code_simp

lemma isWhiteSpace_unat:
  "isWhiteSpace c \<longleftrightarrow>
     unat c \<in> {9, 10, 11, 12, 13, 32, 160, 5760, 8232, 8233, 8239, 8287, 12288, 65279} \<or>
     (8192 \<le> unat c \<and> unat c \<le> 8202)"
  unfolding isWhiteSpace_def word_le_nat_alt word_unat_eq_iff by simp blast

lemma isDigit_unat: "isDigit c \<longleftrightarrow> 48 \<le> unat c \<and> unat c \<le> 57"
  unfolding isDigit_def word_le_nat_alt by simp

lemma isKeyChar_unat:
  "isKeyChar c \<longleftrightarrow>
     (97 \<le> unat c \<and> unat c \<le> 122) \<or> (65 \<le> unat c \<and> unat c \<le> 90) \<or>
     (48 \<le> unat c \<and> unat c \<le> 57) \<or> unat c = 95 \<or> unat c = 45"
  unfolding isKeyChar_def word_le_nat_alt word_unat_eq_iff by simp

lemma digit_not_space: "isDigit c \<Longrightarrow> \<not> isWhiteSpace c"
  by (auto simp: isWhiteSpace_unat isDigit_unat)

lemma space_not_key: "isWhiteSpace c \<Longrightarrow> \<not> isKeyChar c"
  by (auto simp: isWhiteSpace_unat isKeyChar_unat)

lemma space_not_quote: "isWhiteSpace c \<Longrightarrow> c \<noteq> 0x22"
  by (auto simp: isWhiteSpace_unat)

lemma matchPlaceholder_iff:
  "matchPlaceholder s =
     (\<exists>h ws ds. s = h @ ws @ ds \<and> map canonicalize h = js ''CHANNEL'' \<and>
        list_all isWhiteSpace ws \<and> ds \<noteq> [] \<and> list_all isDigit ds)"
proof
  assume m: "matchPlaceholder s"
  let ?h = "take 7 s" and ?ws = "takeWhile isWhiteSpace (drop 7 s)"
    and ?ds = "dropWhile isWhiteSpace (drop 7 s)"
  have "s = ?h @ ?ws @ ?ds" by simp
  moreover have "list_all isWhiteSpace ?ws"
    by (simp add: list_all_iff) (meson set_takeWhileD)
  ultimately show "\<exists>h ws ds. s = h @ ws @ ds \<and> map canonicalize h = js ''CHANNEL'' \<and>
        list_all isWhiteSpace ws \<and> ds \<noteq> [] \<and> list_all isDigit ds"
    using m unfolding matchPlaceholder_def Let_def by blast
next
  assume "\<exists>h ws ds. s = h @ ws @ ds \<and> map canonicalize h = js ''CHANNEL'' \<and>
        list_all isWhiteSpace ws \<and> ds \<noteq> [] \<and> list_all isDigit ds"
  then obtain h ws ds where s: "s = h @ ws @ ds" and h: "map canonicalize h = js ''CHANNEL''"
    and ws: "list_all isWhiteSpace ws" and ds: "ds \<noteq> []" "list_all isDigit ds"
    by blast
  have "length (map canonicalize h) = 7" unfolding h by (simp add: js_def)
  then have l: "length h = 7" by simp
  obtain d ds' where dd: "ds = d # ds'" using ds(1) by (cases ds) auto
  then have "\<not> isWhiteSpace d" using ds(2) digit_not_space by simp
  then have "dropWhile isWhiteSpace (ws @ ds) = ds"
    using ws dd by (simp add: dropWhile_append list_all_iff)
  then show "matchPlaceholder s"
    using s h l ds by (simp add: matchPlaceholder_def Let_def)
qed

section \<open>The metadata directive\<close>

lemma lastIndexOf_absent: "c \<notin> set s \<Longrightarrow> lastIndexOf s c = -1"
  by (induction s) (auto simp: Let_def)

lemma lastIndexOf_last: "c \<notin> set b \<Longrightarrow> lastIndexOf (a @ c # b) c = int (length a)"
  by (induction a) (auto simp: Let_def lastIndexOf_absent)

lemma matchAt_nonkey: "\<not> isKeyChar w \<Longrightarrow> matchAt (w # s) = None"
  by (simp add: matchAt_def Let_def)

lemma exec_nonkey: "\<not> isKeyChar w \<Longrightarrow> attributeRegex_exec (w # s) = attributeRegex_exec s"
  by (simp add: matchAt_nonkey)

lemma exec_dropWhile_space:
  "attributeRegex_exec (dropWhile isWhiteSpace s) = attributeRegex_exec s"
  by (induction s) (simp_all add: exec_nonkey space_not_key del: attributeRegex_exec.simps)

lemma spaces_no_key: "list_all isWhiteSpace ws \<Longrightarrow> takeWhile isKeyChar ws = []"
  by (cases ws) (auto simp: space_not_key)

lemma not_space_literals: "\<not> isWhiteSpace 0x3D" "\<not> isWhiteSpace 0x22" "\<not> isWhiteSpace 0x2C"
  by (simp_all add: isWhiteSpace_unat)

lemma matchAt_append_spaces:
  assumes ws: "list_all isWhiteSpace ws"
  shows "matchAt (s @ ws) = map_option (\<lambda>(k, v, r). (k, v, r @ ws)) (matchAt s)"
proof (cases "\<forall>x \<in> set s. isKeyChar x")
  case True
  then have t: "takeWhile isKeyChar (s @ ws) = s" "dropWhile isKeyChar (s @ ws) = ws"
    "takeWhile isKeyChar s = s" "dropWhile isKeyChar s = []"
    using ws by (simp_all add: takeWhile_append2 dropWhile_append2 spaces_no_key)
       (cases ws; auto simp: space_not_key)
  have "matchAt s = None" by (simp add: matchAt_def Let_def t)
  moreover have "matchAt (s @ ws) = None"
    using ws by (auto simp: matchAt_def Let_def t not_space_literals split: list.splits)
  ultimately show ?thesis by simp
next
  case False
  then have t: "takeWhile isKeyChar (s @ ws) = takeWhile isKeyChar s"
    "dropWhile isKeyChar (s @ ws) = dropWhile isKeyChar s @ ws"
    by (auto simp: takeWhile_append1 dropWhile_append1)
  from False have ne: "dropWhile isKeyChar s \<noteq> []" by (simp add: dropWhile_eq_Nil_conv)
  then obtain e t' where d: "dropWhile isKeyChar s = e # t'" by (cases "dropWhile isKeyChar s") auto
  show ?thesis
  proof (cases t')
    case Nil
    then show ?thesis
      using ws d by (auto simp: matchAt_def Let_def t not_space_literals split: list.splits)
  next
    case (Cons q r)
    show ?thesis
    proof (cases "0x22 \<in> set r")
      case True
      then have "takeWhile (\<lambda>c. c \<noteq> 0x22) (r @ ws) = takeWhile (\<lambda>c. c \<noteq> 0x22) r"
        "dropWhile (\<lambda>c. c \<noteq> 0x22) (r @ ws) = dropWhile (\<lambda>c. c \<noteq> 0x22) r @ ws"
        "dropWhile (\<lambda>c. c \<noteq> 0x22) r \<noteq> []"
        by (auto simp: takeWhile_append1 dropWhile_append1 dropWhile_eq_Nil_conv)
      then show ?thesis
        using d Cons by (auto simp: matchAt_def Let_def t split: list.splits)
    next
      case False
      then have "dropWhile (\<lambda>c. c \<noteq> 0x22) (r @ ws) = []" "dropWhile (\<lambda>c. c \<noteq> 0x22) r = []"
        using ws by (auto simp: dropWhile_eq_Nil_conv list_all_iff dest: space_not_quote)
      then have nq: "dropWhile (\<lambda>c. c \<noteq> 0x22) (r @ ws) = []" "dropWhile (\<lambda>c. c \<noteq> 0x22) r = []"
        by simp_all
      show ?thesis
        by (simp add: matchAt_def Let_def t d Cons nq)
    qed
  qed
qed

lemma exec_spaces: "list_all isWhiteSpace ws \<Longrightarrow> attributeRegex_exec ws = None"
  by (induction ws) (simp_all add: matchAt_nonkey space_not_key)

lemma exec_append_spaces:
  assumes "list_all isWhiteSpace ws"
  shows "attributeRegex_exec (s @ ws) =
           map_option (\<lambda>(k, v, r). (k, v, r @ ws)) (attributeRegex_exec s)"
proof (induction s)
  case Nil
  then show ?case using assms by (simp add: exec_spaces)
next
  case (Cons c s)
  have "matchAt ((c # s) @ ws) = map_option (\<lambda>(k, v, r). (k, v, r @ ws)) (matchAt (c # s))"
    using assms by (rule matchAt_append_spaces)
  then show ?case using Cons by (cases "matchAt (c # s)") auto
qed

lemma attrLoop_append_spaces:
  assumes "list_all isWhiteSpace ws"
  shows "attrLoop ch (s @ ws) = attrLoop ch s"
proof (induction "length s" arbitrary: s ch rule: less_induct)
  case less
  show ?case
  proof (cases "attributeRegex_exec s")
    case None
    then have "attributeRegex_exec (s @ ws) = None"
      using assms by (simp add: exec_append_spaces)
    then show ?thesis using None by (simp add: attrLoop.simps [of ch])
  next
    case (Some m)
    obtain k v r where m: "m = (k, v, r)" by (cases m)
    have "attributeRegex_exec (s @ ws) = Some (k, v, r @ ws)"
      using assms Some m by (simp add: exec_append_spaces)
    moreover have "length r < length s"
      using Some m attributeRegex_exec_shorter by blast
    ultimately show ?thesis
      using Some m less by (simp add: attrLoop.simps [of ch])
  qed
qed

lemma attrLoop_dropWhile_space: "attrLoop ch (dropWhile isWhiteSpace s) = attrLoop ch s"
  by (simp add: attrLoop.simps [of ch] exec_dropWhile_space)

lemma attrLoop_trim: "attrLoop ch (trim s) = attrLoop ch s"
proof -
  let ?t = "dropWhile isWhiteSpace s"
  let ?ws = "rev (takeWhile isWhiteSpace (rev ?t))"
  have "?t = trim s @ ?ws"
    unfolding trim_def by (metis rev_append rev_rev_ident takeWhile_dropWhile_id)
  moreover have "list_all isWhiteSpace ?ws"
    by (simp add: list_all_iff) (meson set_takeWhileD)
  ultimately have "attrLoop ch ?t = attrLoop ch (trim s)"
    using attrLoop_append_spaces by metis
  then show ?thesis by (simp add: attrLoop_dropWhile_space)
qed

lemma extInf_split:
  assumes "trim (substringFrom line 8) = a @ 0x2C # b" and "0x2C \<notin> set b"
  shows "extInf n line =
           Some (normalizeName n (attrLoop ((newChannel line)\<lparr>name := trim b\<rparr>) a))"
proof -
  have "lastIndexOf (a @ 0x2C # b) 0x2C = int (length a)"
    using assms(2) by (rule lastIndexOf_last)
  moreover have "nat (int (length a) + 1) = Suc (length a)"
    by simp
  ultimately show ?thesis
    using assms(1)
    by (simp add: extInf_def Let_def substringFrom_def substring_def attrLoop_trim
        del: of_nat_Suc)
qed

lemma extInf_no_comma:
  assumes "0x2C \<notin> set (trim (substringFrom line 8))"
  shows "extInf n line = None"
  using assms by (simp add: extInf_def Let_def lastIndexOf_absent)

text \<open>
  C5. On a metadata directive line, let the substring after the prefix, trimmed, be split
  at its last comma into \<open>a\<close> and \<open>b\<close>. Then the pending channel is the one
  whose provisional name is \<open>b\<close> trimmed and whose attributes are extracted from the
  block \<open>a\<close> (the code trims the block first, which changes no match), with the name
  normalised. If the substring has no comma, the line only warns: no channel is pending
  afterwards, and nothing is appended.
\<close>

theorem C5_last_comma:
  assumes "startsWith (trim raw) (js ''#EXTINF:'')"
  shows
    "(trim (substringFrom (trim raw) 8) = a @ 0x2C # b \<and> 0x2C \<notin> set b \<longrightarrow>
        processLine st raw =
          (discardPrevious st)
            \<lparr>currentChannel := Some (normalizeName (length (parsedChannels st))
               (attrLoop ((newChannel (trim raw))\<lparr>name := trim b\<rparr>) a))\<rparr>) \<and>
     (0x2C \<notin> set (trim (substringFrom (trim raw) 8)) \<longrightarrow>
        processLine st raw =
          (discardPrevious st)
            \<lparr>currentChannel := None,
             console := console (discardPrevious st) @ [WarnMalformed (trim raw)]\<rparr>)"
  using assms
  by (auto simp: processLine_extinf extInf_split extInf_no_comma emit_def)

theorem C5_last_comma_witness:
  "processLine initial (js ''#EXTINF:-1 no comma here'') =
     \<lparr>parsedChannels = [], currentChannel = None,
      console = [LogStarting, WarnMalformed (js ''#EXTINF:-1 no comma here'')]\<rparr> \<and>
   currentChannel (processLine initial (js ''#EXTINF:-1 tvg-id=\"a,b\",ABC News'')) =
     Some \<lparr>name = js ''ABC News'', tvgId = js ''a,b'', tvgName = [], logo = [], group = [],
       url = [], rawExtInf = js ''#EXTINF:-1 tvg-id=\"a,b\",ABC News''\<rparr>"
proof -
  let ?r1 = "js ''#EXTINF:-1 no comma here''"
  let ?r2 = "js ''#EXTINF:-1 tvg-id=\"a,b\",ABC News''"
  have dp: "discardPrevious initial = initial"
    by (simp add: discardPrevious_def initial_def)
  have t1: "trim ?r1 = ?r1"
    by code_simp
  have s1: "startsWith (trim ?r1) (js ''#EXTINF:'')"
    by code_simp
  have n1: "0x2C \<notin> set (trim (substringFrom (trim ?r1) 8))"
    by code_simp
  have a: "processLine initial ?r1 =
      (discardPrevious initial)
        \<lparr>currentChannel := None,
         console := console (discardPrevious initial) @ [WarnMalformed (trim ?r1)]\<rparr>"
    using C5_last_comma [OF s1, where st = initial and a = "[]" and b = "[]"] n1 by blast
  have s2: "startsWith (trim ?r2) (js ''#EXTINF:'')"
    by code_simp
  have sp: "trim (substringFrom (trim ?r2) 8) = js ''-1 tvg-id=\"a,b\"'' @ 0x2C # js ''ABC News''"
    by code_simp
  have nb: "0x2C \<notin> set (js ''ABC News'')"
    by code_simp
  have ev: "normalizeName (length (parsedChannels initial))
        (attrLoop ((newChannel (trim ?r2))\<lparr>name := trim (js ''ABC News'')\<rparr>)
           (js ''-1 tvg-id=\"a,b\"'')) =
      \<lparr>name = js ''ABC News'', tvgId = js ''a,b'', tvgName = [], logo = [], group = [],
       url = [], rawExtInf = ?r2\<rparr>"
    by code_simp
  have b: "processLine initial ?r2 =
      (discardPrevious initial)
        \<lparr>currentChannel := Some (normalizeName (length (parsedChannels initial))
           (attrLoop ((newChannel (trim ?r2))\<lparr>name := trim (js ''ABC News'')\<rparr>)
              (js ''-1 tvg-id=\"a,b\"'')))\<rparr>"
    using C5_last_comma [OF s2, where st = initial and a = "js ''-1 tvg-id=\"a,b\"''"
        and b = "js ''ABC News''"] sp nb by blast
  show ?thesis
    unfolding a b ev dp t1 by (simp add: initial_def)
qed


section \<open>Attribute extraction\<close>

lemma attrLoop_foldl:
  "attrLoop ch s = foldl (\<lambda>c (k, v). switchKey c (toLowerCase k) v) ch (matchAll s)"
proof (induction "length s" arbitrary: s ch rule: less_induct)
  case less
  show ?case
  proof (cases "attributeRegex_exec s")
    case None
    then show ?thesis by (simp add: attrLoop.simps [of ch s] matchAll.simps [of s])
  next
    case (Some m)
    obtain k v r where m: "m = (k, v, r)" by (cases m)
    have "length r < length s"
      using Some m attributeRegex_exec_shorter by blast
    then show ?thesis
      using Some m less by (simp add: attrLoop.simps [of ch s] matchAll.simps [of s])
  qed
qed

lemma switchKey_unrecognized: "k \<notin> set recognizedKeys \<Longrightarrow> switchKey ch k v = ch"
  by (simp add: switchKey_def recognizedKeys_def)

lemma foldl_switchKey_filter:
  "foldl (\<lambda>c (k, v). switchKey c k v) ch (filter (\<lambda>(k, v). k \<in> set recognizedKeys) ms) =
   foldl (\<lambda>c (k, v). switchKey c k v) ch ms"
  by (induction ms arbitrary: ch) (auto simp: switchKey_unrecognized)

lemma foldl_switchKey_map:
  "foldl (\<lambda>c (k, v). switchKey c k v) ch (map (\<lambda>(k, v). (toLowerCase k, v)) ms) =
   foldl (\<lambda>c (k, v). switchKey c (toLowerCase k) v) ch ms"
  by (induction ms arbitrary: ch) auto

lemma switchKey_recognized:
  "switchKey ch (js ''tvg-id'') v = ch\<lparr>tvgId := v\<rparr>"
  "switchKey ch (js ''tvg-name'') v = ch\<lparr>tvgName := v\<rparr>"
  "switchKey ch (js ''tvg-logo'') v = ch\<lparr>logo := v\<rparr>"
  "switchKey ch (js ''group-title'') v = ch\<lparr>group := v\<rparr>"
  by (simp_all add: switchKey_def js_def)

lemma key_literals: "\<not> isKeyChar 0x3D" "\<not> isKeyChar 0x22"
  by (simp_all add: isKeyChar_unat)

lemma matchAt_wellformed:
  assumes "k \<noteq> []" and "list_all isKeyChar k" and "0x22 \<notin> set v"
  shows "matchAt (k @ 0x3D # 0x22 # v @ 0x22 # rest) = Some (k, v, rest)"
proof -
  have k: "\<forall>x \<in> set k. isKeyChar x" using assms(2) by (simp add: list_all_iff)
  have "takeWhile isKeyChar (k @ 0x3D # 0x22 # v @ 0x22 # rest) = k"
    "dropWhile isKeyChar (k @ 0x3D # 0x22 # v @ 0x22 # rest) = 0x3D # 0x22 # v @ 0x22 # rest"
    using k by (simp_all add: takeWhile_append2 dropWhile_append2 key_literals)
  moreover have "takeWhile (\<lambda>c. c \<noteq> 0x22) (v @ 0x22 # rest) = v"
    "dropWhile (\<lambda>c. c \<noteq> 0x22) (v @ 0x22 # rest) = 0x22 # rest"
    using assms(3) by (induction v) auto
  ultimately show ?thesis
    using assms(1) by (simp add: matchAt_def Let_def)
qed

lemma exec_of_matchAt: "matchAt s = Some m \<Longrightarrow> attributeRegex_exec s = Some m"
  by (cases s) (simp_all add: matchAt_def)

lemma matchAt_other_char:
  "dropWhile isKeyChar w = e # r \<Longrightarrow> e \<noteq> 0x3D \<Longrightarrow> matchAt w = None"
  by (simp add: matchAt_def Let_def split: list.splits)

lemma matchAt_no_equals:
  assumes "0x3D \<notin> set pre" and "pre \<noteq> []" and "\<not> isKeyChar (last pre)"
  shows "matchAt (pre @ t) = None"
proof -
  have x: "last pre \<in> set pre"
    using assms(2) by simp
  have d: "dropWhile isKeyChar (pre @ t) = dropWhile isKeyChar pre @ t"
    using x assms(3) by (rule dropWhile_append1)
  have "dropWhile isKeyChar pre \<noteq> []"
    using x assms(3) by (auto simp: dropWhile_eq_Nil_conv)
  then obtain e r where er: "dropWhile isKeyChar pre = e # r"
    by (cases "dropWhile isKeyChar pre") auto
  have "e \<in> set (dropWhile isKeyChar pre)"
    unfolding er by simp
  then have "e \<in> set pre"
    by (rule set_dropWhileD)
  then have "e \<noteq> 0x3D"
    using assms(1) by blast
  moreover have "dropWhile isKeyChar (pre @ t) = e # (r @ t)"
    unfolding d er by simp
  ultimately show ?thesis
    by (rule matchAt_other_char [rotated])
qed

lemma exec_wellformed:
  assumes "k \<noteq> []" and "list_all isKeyChar k" and "0x22 \<notin> set v"
    and "0x3D \<notin> set pre" and "pre = [] \<or> \<not> isKeyChar (last pre)"
  shows "attributeRegex_exec (pre @ k @ 0x3D # 0x22 # v @ 0x22 # rest) = Some (k, v, rest)"
  using assms(4,5)
proof (induction pre)
  case Nil
  show ?case
    using assms(1-3) by (simp add: exec_of_matchAt matchAt_wellformed)
next
  case (Cons p ps)
  have np: "\<not> isKeyChar (last (p # ps))"
    using Cons.prems(2) by blast
  have "matchAt ((p # ps) @ k @ 0x3D # 0x22 # v @ 0x22 # rest) = None"
    by (rule matchAt_no_equals [OF Cons.prems(1) _ np]) simp
  then have m: "matchAt (p # ps @ k @ 0x3D # 0x22 # v @ 0x22 # rest) = None"
    by simp
  have "0x3D \<notin> set ps"
    using Cons.prems(1) by simp
  moreover have "ps = [] \<or> \<not> isKeyChar (last ps)"
    using np by (cases ps) auto
  ultimately have "attributeRegex_exec (ps @ k @ 0x3D # 0x22 # v @ 0x22 # rest) = Some (k, v, rest)"
    by (rule Cons.IH)
  then show ?case
    by (simp add: m)
qed

lemma matchAll_wellformed:
  assumes "k \<noteq> []" and "list_all isKeyChar k" and "0x22 \<notin> set v"
    and "0x3D \<notin> set pre" and "pre = [] \<or> \<not> isKeyChar (last pre)"
  shows "matchAll (pre @ k @ 0x3D # 0x22 # v @ 0x22 # rest) = (k, v) # matchAll rest"
  using exec_wellformed [OF assms]
  by (simp add: matchAll.simps [of "pre @ k @ 0x3D # 0x22 # v @ 0x22 # rest"])

text \<open>
  C9. The attribute loop is a fold over the matches of the regular expression in which
  every key is lower-cased first and only the four recognized keys count: a match with
  any other key changes nothing. Each recognized key assigns the value to its own field.
  A well-formed attribute \<open>k="v"\<close>, after a prefix without \<open>=\<close> that does not end in a
  key character, is the next match, with the key as it is written.
\<close>

theorem C9_attribute_keys:
  "attrLoop ch s =
     foldl (\<lambda>c (k, v). switchKey c k v) ch
       (filter (\<lambda>(k, v). k \<in> set recognizedKeys)
          (map (\<lambda>(k, v). (toLowerCase k, v)) (matchAll s))) \<and>
   switchKey ch (js ''tvg-id'') v = ch\<lparr>tvgId := v\<rparr> \<and>
   switchKey ch (js ''tvg-name'') v = ch\<lparr>tvgName := v\<rparr> \<and>
   switchKey ch (js ''tvg-logo'') v = ch\<lparr>logo := v\<rparr> \<and>
   switchKey ch (js ''group-title'') v = ch\<lparr>group := v\<rparr> \<and>
   (k \<noteq> [] \<and> list_all isKeyChar k \<and> 0x22 \<notin> set v \<and> 0x3D \<notin> set pre \<and>
    (pre = [] \<or> \<not> isKeyChar (last pre)) \<longrightarrow>
      matchAll (pre @ k @ 0x3D # 0x22 # v @ 0x22 # rest) = (k, v) # matchAll rest)"
  by (simp add: attrLoop_foldl foldl_switchKey_filter foldl_switchKey_map
      switchKey_recognized matchAll_wellformed)

theorem C9_attribute_keys_witness:
  "attrLoop (newChannel []) (js ''TVG-ID=\"x\" catchup=\"1\"'') =
     (newChannel [])\<lparr>tvgId := js ''x''\<rparr> \<and>
   matchAll (js ''-1 '' @ js ''Tvg-Name'' @ 0x3D # 0x22 # js ''ABC'' @ 0x22 # []) =
     [(js ''Tvg-Name'', js ''ABC'')]"
proof -
  note inst = C9_attribute_keys [where ch = "newChannel []"
      and s = "js ''TVG-ID=\"x\" catchup=\"1\"''" and k = "js ''Tvg-Name''"
      and v = "js ''ABC''" and pre = "js ''-1 ''" and rest = "[]"]
  have ma: "matchAll (js ''TVG-ID=\"x\" catchup=\"1\"'') =
      [(js ''TVG-ID'', js ''x''), (js ''catchup'', js ''1'')]"
    by code_simp
  have f: "foldl (\<lambda>c (k, v). switchKey c k v) (newChannel [])
       (filter (\<lambda>(k, v). k \<in> set recognizedKeys)
          (map (\<lambda>(k, v). (toLowerCase k, v))
             [(js ''TVG-ID'', js ''x''), (js ''catchup'', js ''1'')])) =
      (newChannel [])\<lparr>tvgId := js ''x''\<rparr>"
    by code_simp
  have "attrLoop (newChannel []) (js ''TVG-ID=\"x\" catchup=\"1\"'') =
      (newChannel [])\<lparr>tvgId := js ''x''\<rparr>"
    using inst [THEN conjunct1] unfolding ma f .
  moreover have h: "js ''Tvg-Name'' \<noteq> []" "list_all isKeyChar (js ''Tvg-Name'')"
    "0x22 \<notin> set (js ''ABC'')" "0x3D \<notin> set (js ''-1 '')"
    "js ''-1 '' = [] \<or> \<not> isKeyChar (last (js ''-1 ''))"
    by code_simp+
  have e: "matchAll [] = []"
    by code_simp
  have "matchAll (js ''-1 '' @ js ''Tvg-Name'' @ 0x3D # 0x22 # js ''ABC'' @ 0x22 # []) =
      [(js ''Tvg-Name'', js ''ABC'')]"
    using inst h unfolding e by blast
  ultimately show ?thesis by blast
qed


lemma lastOr_simps: "lastOr d [] = d" "lastOr d (vs @ [v]) = v"
  by (simp_all add: lastOr_def)

lemma lastOr_Cons: "lastOr d (v # vs) = lastOr v vs"
  by (induction vs arbitrary: v rule: rev_induct) (simp_all add: lastOr_def)

lemma recognized_distinct:
  "js ''tvg-id'' \<noteq> js ''tvg-name''" "js ''tvg-id'' \<noteq> js ''tvg-logo''"
  "js ''tvg-id'' \<noteq> js ''group-title''" "js ''tvg-name'' \<noteq> js ''tvg-logo''"
  "js ''tvg-name'' \<noteq> js ''group-title''" "js ''tvg-logo'' \<noteq> js ''group-title''"
  by (simp_all add: js_def)

lemma switchKey_fields:
  "tvgId (switchKey ch k v) = (if k = js ''tvg-id'' then v else tvgId ch)"
  "tvgName (switchKey ch k v) = (if k = js ''tvg-name'' then v else tvgName ch)"
  "logo (switchKey ch k v) = (if k = js ''tvg-logo'' then v else logo ch)"
  "group (switchKey ch k v) = (if k = js ''group-title'' then v else group ch)"
  using recognized_distinct by (simp_all add: switchKey_def)

lemma foldl_switchKey_tvgId:
  "tvgId (foldl (\<lambda>c (k, v). switchKey c (toLowerCase k) v) ch ms) =
     lastOr (tvgId ch) (map snd (filter (\<lambda>(k, v). toLowerCase k = js ''tvg-id'') ms))"
  by (induction ms arbitrary: ch)
    (simp_all add: lastOr_simps lastOr_Cons switchKey_fields split_beta)

lemma foldl_switchKey_tvgName:
  "tvgName (foldl (\<lambda>c (k, v). switchKey c (toLowerCase k) v) ch ms) =
     lastOr (tvgName ch) (map snd (filter (\<lambda>(k, v). toLowerCase k = js ''tvg-name'') ms))"
  by (induction ms arbitrary: ch)
    (simp_all add: lastOr_simps lastOr_Cons switchKey_fields split_beta)

lemma foldl_switchKey_logo:
  "logo (foldl (\<lambda>c (k, v). switchKey c (toLowerCase k) v) ch ms) =
     lastOr (logo ch) (map snd (filter (\<lambda>(k, v). toLowerCase k = js ''tvg-logo'') ms))"
  by (induction ms arbitrary: ch)
    (simp_all add: lastOr_simps lastOr_Cons switchKey_fields split_beta)

lemma foldl_switchKey_group:
  "group (foldl (\<lambda>c (k, v). switchKey c (toLowerCase k) v) ch ms) =
     lastOr (group ch) (map snd (filter (\<lambda>(k, v). toLowerCase k = js ''group-title'') ms))"
  by (induction ms arbitrary: ch)
    (simp_all add: lastOr_simps lastOr_Cons switchKey_fields split_beta)

text \<open>
  C10. After the attribute loop each of the four fields holds the value of the last
  match whose lower-cased key is the field's key, or its old value when there is no
  such match.
\<close>

theorem C10_last_occurrence:
  "tvgId (attrLoop ch s) = lastOr (tvgId ch) (valuesOf (js ''tvg-id'') s) \<and>
   tvgName (attrLoop ch s) = lastOr (tvgName ch) (valuesOf (js ''tvg-name'') s) \<and>
   logo (attrLoop ch s) = lastOr (logo ch) (valuesOf (js ''tvg-logo'') s) \<and>
   group (attrLoop ch s) = lastOr (group ch) (valuesOf (js ''group-title'') s)"
  by (simp add: attrLoop_foldl valuesOf_def foldl_switchKey_tvgId foldl_switchKey_tvgName
      foldl_switchKey_logo foldl_switchKey_group)

theorem C10_last_occurrence_witness:
  "tvgId (attrLoop (newChannel []) (js ''tvg-id=\"a\" group-title=\"g\" TVG-ID=\"b\"'')) = js ''b''"
proof -
  have v: "valuesOf (js ''tvg-id'') (js ''tvg-id=\"a\" group-title=\"g\" TVG-ID=\"b\"'') =
      [js ''a'', js ''b'']"
    by code_simp
  show ?thesis
    using C10_last_occurrence [where ch = "newChannel []"
        and s = "js ''tvg-id=\"a\" group-title=\"g\" TVG-ID=\"b\"''"]
    unfolding v by (simp add: lastOr_def)
qed

section \<open>The name of a pending channel\<close>

lemma switchKey_name: "name (switchKey ch k v) = name ch"
  by (simp add: switchKey_def)

lemma attrLoop_name: "name (attrLoop ch s) = name ch"
proof -
  have "name (foldl (\<lambda>c (k, v). switchKey c (toLowerCase k) v) ch ms) = name ch" for ms
    by (induction ms arbitrary: ch) (simp_all add: switchKey_name split_beta)
  then show ?thesis by (simp add: attrLoop_foldl)
qed

lemma attrLoop_tvgName:
  "tvgName (attrLoop ch s) = lastOr (tvgName ch) (valuesOf (js ''tvg-name'') s)"
  by (simp add: attrLoop_foldl valuesOf_def foldl_switchKey_tvgName)

lemma normalizeName_fields:
  "tvgName (normalizeName n ch) = tvgName ch"
  "name (normalizeName n ch) =
     (if (name ch = [] \<or> matchPlaceholder (name ch)) \<and> tvgName ch \<noteq> [] then tvgName ch
      else if name ch = [] then js ''Unnamed Channel '' @ decimal (n + 1)
      else name ch)"
  by (simp_all add: normalizeName_def Let_def)

text \<open>
  C6, amended. Let a metadata directive split at its last comma into the attribute block
  \<open>a\<close> and the text \<open>b\<close>. The channel then pending has as \<open>tvgName\<close> the value of the
  last \<open>tvg-name\<close> attribute of \<open>a\<close> (empty when there is none), and its name follows the
  chain: if the provisional name, \<open>b\<close> trimmed, is empty or matches the placeholder
  pattern, and \<open>tvgName\<close> is not empty, the name is \<open>tvgName\<close>; otherwise, if the
  provisional name is empty, the name is \<open>Unnamed Channel n\<close> with \<open>n\<close> the number of
  records already emitted plus one; otherwise the explicit name stays. The placeholder
  pattern is the whole name being \<open>Channel\<close> (in any case), then any white space,
  possibly none, then one or more digits.
\<close>

theorem C6_name_normalisation:
  assumes "startsWith (trim raw) (js ''#EXTINF:'')"
    and "trim (substringFrom (trim raw) 8) = a @ 0x2C # b" and "0x2C \<notin> set b"
  shows
    "(\<exists>c. currentChannel (processLine st raw) = Some c \<and>
        tvgName c = lastOr [] (valuesOf (js ''tvg-name'') a) \<and>
        name c =
          (if (trim b = [] \<or> matchPlaceholder (trim b)) \<and> tvgName c \<noteq> [] then tvgName c
           else if trim b = []
             then js ''Unnamed Channel '' @ decimal (length (parsedChannels st) + 1)
           else trim b)) \<and>
     matchPlaceholder s =
       (\<exists>h ws ds. s = h @ ws @ ds \<and> map canonicalize h = js ''CHANNEL'' \<and>
          list_all isWhiteSpace ws \<and> ds \<noteq> [] \<and> list_all isDigit ds)"
proof
  let ?n = "length (parsedChannels st)"
  let ?pre = "attrLoop ((newChannel (trim raw))\<lparr>name := trim b\<rparr>) a"
  let ?fin = "normalizeName ?n ?pre"
  have "extInf ?n (trim raw) = Some ?fin"
    using assms(2,3) by (rule extInf_split)
  then have cur: "currentChannel (processLine st raw) = Some ?fin"
    using assms(1) by (simp add: processLine_extinf)
  have nm: "name ?pre = trim b"
    by (simp add: attrLoop_name)
  have tv: "tvgName ?pre = lastOr [] (valuesOf (js ''tvg-name'') a)"
    by (simp add: attrLoop_tvgName newChannel_def)
  have "tvgName ?fin = lastOr [] (valuesOf (js ''tvg-name'') a)"
    by (simp only: normalizeName_fields(1) tv)
  moreover have "name ?fin =
      (if (trim b = [] \<or> matchPlaceholder (trim b)) \<and> tvgName ?fin \<noteq> [] then tvgName ?fin
       else if trim b = [] then js ''Unnamed Channel '' @ decimal (?n + 1)
       else trim b)"
    by (simp only: normalizeName_fields nm)
  ultimately show "\<exists>c. currentChannel (processLine st raw) = Some c \<and>
        tvgName c = lastOr [] (valuesOf (js ''tvg-name'') a) \<and>
        name c =
          (if (trim b = [] \<or> matchPlaceholder (trim b)) \<and> tvgName c \<noteq> [] then tvgName c
           else if trim b = []
             then js ''Unnamed Channel '' @ decimal (length (parsedChannels st) + 1)
           else trim b)"
    using cur by blast
next
  show "matchPlaceholder s =
       (\<exists>h ws ds. s = h @ ws @ ds \<and> map canonicalize h = js ''CHANNEL'' \<and>
          list_all isWhiteSpace ws \<and> ds \<noteq> [] \<and> list_all isDigit ds)"
    by (rule matchPlaceholder_iff)
qed

theorem C6_name_normalisation_witness:
  "(\<exists>c. currentChannel
           (processLine pendingSample (js ''#EXTINF:-1 tvg-name=\"Real Name\",Channel 5'')) = Some c \<and>
        tvgName c = js ''Real Name'' \<and> name c = js ''Real Name'') \<and>
   (\<exists>c. currentChannel
           (processLine (processLine initial (js ''http://a'')) (js ''#EXTINF:-1,'')) = Some c \<and>
        tvgName c = [] \<and> name c = js ''Unnamed Channel 2'')"
proof -
  let ?r1 = "js ''#EXTINF:-1 tvg-name=\"Real Name\",Channel 5''"
  have s1: "startsWith (trim ?r1) (js ''#EXTINF:'')"
    by code_simp
  have sp1: "trim (substringFrom (trim ?r1) 8) =
      js ''-1 tvg-name=\"Real Name\"'' @ 0x2C # js ''Channel 5''"
    by code_simp
  have nb1: "0x2C \<notin> set (js ''Channel 5'')"
    by code_simp
  have v1: "lastOr [] (valuesOf (js ''tvg-name'') (js ''-1 tvg-name=\"Real Name\"'')) =
      js ''Real Name''"
    by code_simp
  have t1: "trim (js ''Channel 5'') = js ''Channel 5''"
    by code_simp
  have m1: "matchPlaceholder (js ''Channel 5'')"
    by code_simp
  have n1: "js ''Real Name'' \<noteq> []"
    by (simp add: js_def)
  have a: "\<exists>c. currentChannel (processLine pendingSample ?r1) = Some c \<and>
        tvgName c = js ''Real Name'' \<and> name c = js ''Real Name''"
    using C6_name_normalisation [OF s1 sp1 nb1, of pendingSample "[]", THEN conjunct1]
    unfolding v1 t1 using m1 n1 by auto
  let ?st = "processLine initial (js ''http://a'')"
  let ?r2 = "js ''#EXTINF:-1,''"
  have s2: "startsWith (trim ?r2) (js ''#EXTINF:'')"
    by code_simp
  have sp2: "trim (substringFrom (trim ?r2) 8) = js ''-1'' @ 0x2C # []"
    by code_simp
  have nb2: "0x2C \<notin> set ([] :: jsstring)"
    by simp
  have v2: "lastOr [] (valuesOf (js ''tvg-name'') (js ''-1'')) = []"
    by code_simp
  have d2: "js ''Unnamed Channel '' @ decimal (length (parsedChannels ?st) + 1) =
      js ''Unnamed Channel 2''"
    by code_simp
  have b: "\<exists>c. currentChannel (processLine ?st ?r2) = Some c \<and>
        tvgName c = [] \<and> name c = js ''Unnamed Channel 2''"
    using C6_name_normalisation [OF s2 sp2 nb2, of ?st "[]", THEN conjunct1]
    unfolding v2 d2 by (auto simp: trim_Nil)
  show ?thesis
    using a b by blast
qed

section \<open>Reachable states\<close>

text \<open>
  A pending channel never has a URL: the URL is assigned in the same step that pushes
  the channel and clears the slot. So the discard tests \<^verbatim>\<open>!currentChannel.url\<close> of
  the source always succeed when a channel is pending.
\<close>

lemma switchKey_url: "url (switchKey ch k v) = url ch"
  by (simp add: switchKey_def)

lemma attrLoop_url: "url (attrLoop ch s) = url ch"
proof -
  have "url (foldl (\<lambda>c (k, v). switchKey c (toLowerCase k) v) ch ms) = url ch" for ms
    by (induction ms arbitrary: ch) (simp_all add: switchKey_url split_beta)
  then show ?thesis by (simp add: attrLoop_foldl)
qed

lemma extInf_url: "extInf n line = Some ch \<Longrightarrow> url ch = []"
  by (auto simp: extInf_def Let_def normalizeName_def attrLoop_url newChannel_def
      split: if_splits)

lemma processLine_pending_url:
  assumes "\<And>c. currentChannel st = Some c \<Longrightarrow> url c = []"
    and "currentChannel (processLine st raw) = Some c"
  shows "url c = []"
proof (cases "isContent (trim raw)")
  case True
  then show ?thesis using assms(2) by (simp add: processLine_content)
next
  case False
  then show ?thesis
    using processLine_not_content(2) [OF False, of st] assms extInf_url by auto
qed

lemma foldl_pending_url:
  assumes "\<And>c. currentChannel st = Some c \<Longrightarrow> url c = []"
    and "currentChannel (foldl processLine st ls) = Some c"
  shows "url c = []"
  using assms
proof (induction ls arbitrary: st)
  case Nil
  then show ?case by simp
next
  case (Cons l ls)
  show ?case
  proof (rule Cons.IH)
    show "\<And>c. currentChannel (processLine st l) = Some c \<Longrightarrow> url c = []"
      using Cons.prems(1) processLine_pending_url by blast
    show "currentChannel (foldl processLine (processLine st l) ls) = Some c"
      using Cons.prems(2) by simp
  qed
qed

end
